theory Spec2Isabelle
  imports Main
begin

section \<open>Python strings\<close>

text \<open>
  A Python \<open>str\<close> is a sequence of code points and \<open>len\<close> counts code points. It is
  modelled by \<^typ>\<open>string\<close>, every \<^typ>\<open>char\<close> standing for the code point of the same
  number (0 to 255), so \<^const>\<open>length\<close> is \<open>len\<close> and \<^const>\<open>of_char\<close> is \<open>ord\<close>.

  \<open>str.strip()\<close>, \<open>str.split()\<close> and the class \<open>\s\<close> of \<open>re\<close> (on a \<open>str\<close> pattern) all
  use the same test for whitespace; below 256 it holds of the code points 9 to 13,
  28 to 32, 133 and 160.
\<close>

definition isspace :: "char \<Rightarrow> bool" where
  "isspace c = (of_char c \<in> set [9, 10, 11, 12, 13, 28, 29, 30, 31, 32, 133, 160 :: nat])"

text \<open>\<open>s.strip()\<close>: leading and trailing whitespace removed.\<close>

definition strip :: "string \<Rightarrow> string" where
  "strip s = dropWhile isspace (rev (dropWhile isspace (rev s)))"

text \<open>
  \<open>s.split()\<close>: the maximal runs of non-whitespace, in order. \<open>word\<close> is the run being
  read.
\<close>

fun split_words :: "string \<Rightarrow> string \<Rightarrow> string list" where
  "split_words word [] = (if word = [] then [] else [word])"
| "split_words word (c # cs) =
     (if isspace c
      then (if word = [] then split_words [] cs else word # split_words [] cs)
      else split_words (word @ [c]) cs)"

definition py_split :: "string \<Rightarrow> string list" where
  "py_split s = split_words [] s"

text \<open>\<open>sep.join(xs)\<close>.\<close>

fun join :: "string \<Rightarrow> string list \<Rightarrow> string" where
  "join sep [] = []"
| "join sep [x] = x"
| "join sep (x # y # ys) = x @ sep @ join sep (y # ys)"

text \<open>
  \<open>re.split(r'(?<=[.!?])\s+', text)\<close>. The pattern matches at a position whose previous
  character is one of \<open>.\<close>, \<open>!\<close>, \<open>?\<close> and whose own character is whitespace, and it takes
  the whole run of whitespace from there. The text is cut at every match, scanning from
  the left; \<open>n\<close> matches give \<open>n + 1\<close> pieces, empty ones included. \<open>piece\<close> is the part
  of the text read since the last match: it is empty right after a match (the previous
  character is then whitespace) and at the start of the text (no previous character),
  and in neither place does the look-behind hold.
\<close>

definition is_terminator :: "char \<Rightarrow> bool" where
  "is_terminator c = (c \<in> set ''.!?'')"

function re_split_from :: "string \<Rightarrow> string \<Rightarrow> string list" where
  "re_split_from piece [] = [piece]"
| "re_split_from piece (c # cs) =
     (if piece \<noteq> [] \<and> is_terminator (last piece) \<and> isspace c
      then piece # re_split_from [] (dropWhile isspace cs)
      else re_split_from (piece @ [c]) cs)"
  by pat_completeness auto
termination
  by (relation "measure (\<lambda>(piece, s). length s)")
     (auto simp: less_Suc_eq_le length_dropWhile_le)

definition re_split :: "string \<Rightarrow> string list" where
  "re_split text = re_split_from [] text"

section \<open>utils/text_processor.py\<close>

text \<open>The recurring \<open>if xs: chunks.append(' '.join(xs))\<close>.\<close>

definition append_joined :: "string list \<Rightarrow> string list \<Rightarrow> string list" where
  "append_joined chunks xs = (if xs \<noteq> [] then chunks @ [join '' '' xs] else chunks)"

text \<open>
  The body of \<open>for word in words\<close>, on the state \<open>(chunks, temp_chunk, temp_size)\<close>.
  \<open>max_chunk_size\<close> is a Python \<open>int\<close>, of either sign.
\<close>

fun word_step :: "int \<Rightarrow> string list \<times> string list \<times> int \<Rightarrow> string
    \<Rightarrow> string list \<times> string list \<times> int" where
  "word_step max_chunk_size (chunks, temp_chunk, temp_size) word =
     (if temp_size + int (length word) + 1 \<le> max_chunk_size
      then (chunks, temp_chunk @ [word], temp_size + int (length word) + 1)
      else (append_joined chunks temp_chunk, [word], int (length word)))"

text \<open>
  The body of \<open>for sentence in sentences\<close>, on the state
  \<open>(chunks, current_chunk, current_size)\<close>.
\<close>

fun sentence_step :: "int \<Rightarrow> string list \<times> string list \<times> int \<Rightarrow> string
    \<Rightarrow> string list \<times> string list \<times> int" where
  "sentence_step max_chunk_size (chunks, current_chunk, current_size) raw =
     (let sentence = strip raw in
      if sentence = [] then (chunks, current_chunk, current_size)
      else if int (length sentence) > max_chunk_size then
        (case foldl (word_step max_chunk_size)
                (append_joined chunks current_chunk, [], 0) (py_split sentence) of
           (chunks', temp_chunk, temp_size) \<Rightarrow>
             (append_joined chunks' temp_chunk,
              if current_chunk \<noteq> [] then [] else current_chunk,
              if current_chunk \<noteq> [] then 0 else current_size))
      else if current_size + int (length sentence) + 1 \<le> max_chunk_size
        then (chunks, current_chunk @ [sentence], current_size + int (length sentence) + 1)
        else (append_joined chunks current_chunk, [sentence], int (length sentence)))"

definition split_into_chunks :: "string \<Rightarrow> int \<Rightarrow> string list" where
  "split_into_chunks text max_chunk_size =
     (if text = [] then []
      else case foldl (sentence_step max_chunk_size) ([], [], 0) (re_split text) of
        (chunks, current_chunk, current_size) \<Rightarrow> append_joined chunks current_chunk)"

definition combine_chunks :: "string list \<Rightarrow> string" where
  "combine_chunks chunks = join '' '' chunks"

record text_stats =
  characters :: nat
  words :: nat
  sentences :: nat

definition get_text_stats :: "string \<Rightarrow> text_stats" where
  "get_text_stats text =
     (if text = [] then \<lparr>characters = 0, words = 0, sentences = 0\<rparr>
      else \<lparr>characters = length text,
            words = length (py_split text),
            sentences = length (re_split text)\<rparr>)"

section \<open>utils/config.py and utils/tools.py\<close>

text \<open>The dictionary \<open>SUPPORTED_LANGUAGES\<close>, code to name, in the order of the source.\<close>

definition SUPPORTED_LANGUAGES :: "(string \<times> string) list" where
  "SUPPORTED_LANGUAGES =
     [(''en'', ''English''), (''es'', ''Spanish''), (''fr'', ''French''),
      (''de'', ''German''), (''it'', ''Italian''), (''pt'', ''Portuguese''),
      (''ru'', ''Russian''), (''zh'', ''Chinese''), (''ja'', ''Japanese''),
      (''ko'', ''Korean''), (''bn'', ''Bengali'')]"

text \<open>
  The translation backend (\<open>GoogleTranslator.translate\<close>) is outside the repository. It
  is a parameter: from its own state, the target language and a text it gives the outcome
  of the call and its next state. The call returns a \<open>str\<close>, or it returns a value that
  is not a \<open>str\<close> (the library can return \<open>None\<close>), or it raises, which is the outcome
  \<open>None\<close> here. Nothing is assumed of it; it may answer the same text differently from
  one call to the next.
\<close>

datatype pyval = Str string | NotStr

type_synonym 'b backend = "'b \<Rightarrow> string \<Rightarrow> string \<Rightarrow> pyval option \<times> 'b"

text \<open>
  A \<open>TranslationTool\<close>: the target set on \<open>self.translator\<close>, the state of the backend
  behind it, and \<open>self._translation_cache\<close>. \<open>backend_log\<close> is not a field of the
  source: it records the argument of every call of the backend, in order, so that
  "no call of the backend" can be stated.
\<close>

record 'b TranslationTool =
  translator_target :: string
  translator_state :: 'b
  translation_cache :: "string \<rightharpoonup> string"
  backend_log :: "string list"

text \<open>
  The exceptions: \<open>ValueError\<close> is the one \<open>translate_text\<close> raises to its caller,
  \<open>TypeError\<close> the one \<open>str.join\<close> raises. Their messages are left out.
\<close>

datatype error = ValueError | TypeError

text \<open>
  \<open>[text[i:i + k] for i in range(0, len(text), k)]\<close>: the range has
  \<open>\<lceil>len(text) / k\<rceil>\<close> elements, the \<open>j\<close>-th being \<open>j * k\<close>.
\<close>

definition slices :: "nat \<Rightarrow> string \<Rightarrow> string list" where
  "slices k text =
     map (\<lambda>j. take k (drop (j * k) text)) [0 ..< (length text + k - 1) div k]"

text \<open>
  \<open>sep.join(xs)\<close> on a list of Python values: it raises \<open>TypeError\<close> when an item is
  not a \<open>str\<close>.
\<close>

fun strings_of :: "pyval list \<Rightarrow> string list option" where
  "strings_of [] = Some []"
| "strings_of (Str x # xs) = map_option ((#) x) (strings_of xs)"
| "strings_of (NotStr # xs) = None"

definition join_values :: "string \<Rightarrow> pyval list \<Rightarrow> error + string" where
  "join_values sep xs =
     (case strings_of xs of Some ss \<Rightarrow> Inr (join sep ss) | None \<Rightarrow> Inl TypeError)"

text \<open>
  The body of \<open>for chunk in chunks\<close> with its \<open>try\<close>/\<open>except\<close>, on the state
  \<open>(translated_chunks, self)\<close>: what the backend returns is appended whatever it is, and
  the chunk itself when the call raises.
\<close>

fun translate_chunk :: "'b backend \<Rightarrow> pyval list \<times> 'b TranslationTool \<Rightarrow> string
    \<Rightarrow> pyval list \<times> 'b TranslationTool" where
  "translate_chunk bk (translated_chunks, self) chunk =
     (case bk (translator_state self) (translator_target self) chunk of
        (Some translated, s) \<Rightarrow>
          (translated_chunks @ [translated],
           self\<lparr>translator_state := s, backend_log := backend_log self @ [chunk]\<rparr>)
      | (None, s) \<Rightarrow>
          (translated_chunks @ [Str chunk],
           self\<lparr>translator_state := s, backend_log := backend_log self @ [chunk]\<rparr>))"

text \<open>
  \<open>TranslationTool.translate_text\<close>: the result (\<open>Inl\<close> an exception raised to the
  caller) and the tool afterwards. Inside the outer \<open>try\<close> the call of the backend is
  caught by the inner \<open>except\<close>; the join raises when a value the backend returned is
  not a \<open>str\<close>, and the outer \<open>except\<close> then returns the text, the cache not being
  written.
\<close>

definition translate_text :: "'b backend \<Rightarrow> 'b TranslationTool \<Rightarrow> string \<Rightarrow> string
    \<Rightarrow> (error + string) \<times> 'b TranslationTool" where
  "translate_text bk self text target_lang =
     (if text = [] \<or> strip text = [] then (Inr text, self)
      else if map_of SUPPORTED_LANGUAGES target_lang = None then (Inl ValueError, self)
      else if target_lang = ''en'' \<and> list_all (\<lambda>c. of_char c < (128 :: nat)) text
        then (Inr text, self)
      else
        (let cache_key = text @ ''_'' @ target_lang in
         case translation_cache self cache_key of
           Some cached \<Rightarrow> (Inr cached, self)
         | None \<Rightarrow>
            (case foldl (translate_chunk bk) ([], self\<lparr>translator_target := target_lang\<rparr>)
                    (slices 5000 text) of
               (translated_chunks, self') \<Rightarrow>
                 (case join_values '' '' translated_chunks of
                    Inr result \<Rightarrow>
                      (Inr result,
                       self'\<lparr>translation_cache :=
                         (translation_cache self')(cache_key \<mapsto> result)\<rparr>)
                  | Inl e \<Rightarrow> (Inr text, self')))))"

definition clear_cache :: "'b TranslationTool \<Rightarrow> 'b TranslationTool" where
  "clear_cache self = self\<lparr>translation_cache := Map.empty\<rparr>"

text \<open>\<open>TranslationTool()\<close>, over a backend in state \<open>s\<close>; the library's default target is English.\<close>

definition new_tool :: "'b \<Rightarrow> 'b TranslationTool" where
  "new_tool s =
     \<lparr>translator_target = ''en'', translator_state = s,
      translation_cache = Map.empty, backend_log = []\<rparr>"

text \<open>
  For stating what \<open>translate_text\<close> returns: the state of the backend before each of a
  run of calls, the value the loop keeps for a segment (what the backend returns, or the
  segment itself when the call raises), and the values it keeps for a run of segments.
\<close>

fun backend_states :: "'b backend \<Rightarrow> string \<Rightarrow> 'b \<Rightarrow> string list \<Rightarrow> 'b list" where
  "backend_states bk target s [] = []"
| "backend_states bk target s (chunk # chunks) =
     s # backend_states bk target (snd (bk s target chunk)) chunks"

definition best_effort :: "'b backend \<Rightarrow> string \<Rightarrow> 'b \<Rightarrow> string \<Rightarrow> pyval" where
  "best_effort bk target s chunk =
     (case fst (bk s target chunk) of Some translated \<Rightarrow> translated | None \<Rightarrow> Str chunk)"

definition kept_values :: "'b backend \<Rightarrow> string \<Rightarrow> 'b \<Rightarrow> string list \<Rightarrow> pyval list" where
  "kept_values bk target s chunks =
     map2 (best_effort bk target) (backend_states bk target s chunks) chunks"

text \<open>
  Backends for concrete runs: one whose every call raises; one that returns the text it
  is given; one whose first call raises and whose later calls return \<open>X\<close>; and one whose
  first call raises and whose later calls return a value that is not a \<open>str\<close>. The
  state of the last two counts the calls.
\<close>

definition failing_backend :: "unit backend" where
  "failing_backend s target chunk = (None, s)"

definition echo_backend :: "unit backend" where
  "echo_backend s target chunk = (Some (Str chunk), s)"



section \<open>Notions for the statements and proofs\<close>

text \<open>
  The sentences the loop of \<open>split_into_chunks\<close> works on: the pieces of \<open>re.split\<close>,
  stripped, the empty ones skipped.
\<close>

definition sentences_of :: "string \<Rightarrow> string list" where
  "sentences_of text = filter (\<lambda>s. s \<noteq> []) (map strip (re_split text))"

text \<open>
  The units a sentence is packed in: its words when it is longer than
  \<open>max_chunk_size\<close>, else the sentence as it is. \<open>normalise\<close> is the sentence as it comes
  back when the chunks are joined again.
\<close>

definition units :: "int \<Rightarrow> string \<Rightarrow> string list" where
  "units max_chunk_size sentence =
     (if int (length sentence) > max_chunk_size then py_split sentence else [sentence])"

definition normalise :: "int \<Rightarrow> string \<Rightarrow> string" where
  "normalise max_chunk_size sentence = join '' '' (units max_chunk_size sentence)"

text \<open>
  Two invariants of the loops, on a state \<open>(chunks, pending, size)\<close>. \<open>grouped\<close>: the chunks
  are the joins of non-empty groups of units and, with the pending ones, they make up the
  units read so far. \<open>within\<close>: every chunk is within the bound or is a word of \<open>W\<close>, and
  the size counted for the pending units is not less than the length of their join.
\<close>

definition grouped :: "string list \<Rightarrow> string list \<Rightarrow> string list \<Rightarrow> bool" where
  "grouped chunks pending us =
     (\<exists>groups. chunks = map (join '' '') groups \<and> [] \<notin> set groups \<and> concat groups @ pending = us)"

definition within :: "int \<Rightarrow> string set \<Rightarrow> string list \<times> string list \<times> int \<Rightarrow> bool" where
  "within n W st =
     (case st of (chunks, pending, sz) \<Rightarrow>
        (\<forall>c\<in>set chunks. int (length c) \<le> n \<or> c \<in> W) \<and> 0 \<le> sz
        \<and> int (length (join '' '' pending)) \<le> sz
        \<and> (pending = [] \<or> sz \<le> n \<or> (\<exists>w\<in>W. pending = [w])))"

text \<open>
  \<open>no_boundary s\<close>: the pattern of \<open>re.split\<close> matches nowhere in \<open>s\<close>. \<open>is_sentence s\<close>: \<open>s\<close>
  is what the loop calls a sentence, that is not empty, stripped and without a match
  inside.
\<close>

fun no_boundary :: "string \<Rightarrow> bool" where
  "no_boundary (c # d # cs) = (\<not> (is_terminator c \<and> isspace d) \<and> no_boundary (d # cs))"
| "no_boundary [c] = True"
| "no_boundary [] = True"

definition is_sentence :: "string \<Rightarrow> bool" where
  "is_sentence s = (s \<noteq> [] \<and> \<not> isspace (hd s) \<and> \<not> isspace (last s) \<and> no_boundary s)"

section \<open>Lemmas on strings\<close>

subsection \<open>\<open>join\<close>\<close>

lemma join_Cons: "ys \<noteq> [] \<Longrightarrow> join sep (x # ys) = x @ sep @ join sep ys"
  by (cases ys) simp_all

lemma join_append:
  "xs \<noteq> [] \<Longrightarrow> ys \<noteq> [] \<Longrightarrow> join sep (xs @ ys) = join sep xs @ sep @ join sep ys"
proof (induction xs)
  case Nil
  then show ?case by simp
next
  case (Cons x xs)
  show ?case
  proof (cases "xs = []")
    case True
    with Cons.prems show ?thesis by (simp add: join_Cons)
  next
    case False
    with Cons show ?thesis by (simp add: join_Cons)
  qed
qed

lemma join_snoc: "xs \<noteq> [] \<Longrightarrow> join sep (xs @ [y]) = join sep xs @ sep @ y"
  by (simp add: join_append)

lemma join_concat:
  "[] \<notin> set groups \<Longrightarrow> join sep (map (join sep) groups) = join sep (concat groups)"
proof (induction groups)
  case Nil
  show ?case by simp
next
  case (Cons g gs)
  then have g: "g \<noteq> []" and gs: "[] \<notin> set gs" by auto
  show ?case
  proof (cases "gs = []")
    case True
    then show ?thesis by simp
  next
    case False
    then have "concat gs \<noteq> []" using gs by (cases gs) auto
    then show ?thesis
      using Cons.IH gs False g by (simp add: join_Cons join_append)
  qed
qed

lemma join_eq_Nil: "[] \<notin> set xs \<Longrightarrow> join sep xs = [] \<longleftrightarrow> xs = []"
  by (induction sep xs rule: join.induct) auto

lemma hd_join: "xs \<noteq> [] \<Longrightarrow> hd xs \<noteq> [] \<Longrightarrow> hd (join sep xs) = hd (hd xs)"
  by (induction sep xs rule: join.induct) auto

lemma join_not_Nil: "xs \<noteq> [] \<Longrightarrow> last xs \<noteq> [] \<Longrightarrow> join sep xs \<noteq> []"
  by (induction sep xs rule: join.induct) auto

lemma last_join: "xs \<noteq> [] \<Longrightarrow> last xs \<noteq> [] \<Longrightarrow> last (join sep xs) = last (last xs)"
proof (induction sep xs rule: join.induct)
  case (3 sep x y ys)
  then have "join sep (y # ys) \<noteq> []"
    using join_not_Nil [of "y # ys" sep] by simp
  with 3 show ?case by simp
qed simp_all

lemma length_join_snoc:
  "int (length (join '' '' (xs @ [y]))) \<le> int (length (join '' '' xs)) + int (length y) + 1"
  by (cases "xs = []") (simp_all add: join_snoc)

subsection \<open>\<open>split\<close>\<close>

lemma split_words_space:
  "isspace sp \<Longrightarrow> split_words w (a @ sp # b) = split_words w a @ split_words [] b"
  by (induction a arbitrary: w) auto

lemma py_split_space: "isspace sp \<Longrightarrow> py_split (a @ sp # b) = py_split a @ py_split b"
  by (simp add: py_split_def split_words_space)

lemma isspace_blank: "isspace (CHR '' '')"
  by (simp add: isspace_def)

lemma py_split_join: "py_split (join '' '' xs) = concat (map py_split xs)"
proof (induction "'' ''" xs rule: join.induct)
  case 1
  show ?case by (simp add: py_split_def)
next
  case (2 x)
  show ?case by simp
next
  case (3 x y ys)
  then show ?case
    using py_split_space [OF isspace_blank, of x "join '' '' (y # ys)"] by simp
qed

lemma split_words_dropWhile: "split_words [] (dropWhile isspace s) = split_words [] s"
  by (induction s) auto

lemma py_split_dropWhile: "py_split (dropWhile isspace s) = py_split s"
  by (simp add: py_split_def split_words_dropWhile)

lemma py_split_snoc_space: "isspace sp \<Longrightarrow> py_split (s @ [sp]) = py_split s"
  using py_split_space [of sp s "[]"] by (simp add: py_split_def)

lemma py_split_rstrip: "py_split (rev (dropWhile isspace (rev s))) = py_split s"
proof (induction s rule: rev_induct)
  case Nil
  show ?case by simp
next
  case (snoc c s)
  then show ?case by (cases "isspace c") (simp_all add: py_split_snoc_space)
qed

lemma py_split_strip: "py_split (strip s) = py_split s"
  by (simp add: strip_def py_split_dropWhile py_split_rstrip)

lemma split_words_no_space:
  "\<forall>c\<in>set s. \<not> isspace c \<Longrightarrow> split_words w s = (if w @ s = [] then [] else [w @ s])"
  by (induction s arbitrary: w) simp_all

lemma py_split_word: "w \<noteq> [] \<Longrightarrow> \<forall>c\<in>set w. \<not> isspace c \<Longrightarrow> py_split w = [w]"
  by (simp add: py_split_def split_words_no_space)

lemma split_words_are_words:
  "\<forall>c\<in>set w. \<not> isspace c
   \<Longrightarrow> \<forall>x\<in>set (split_words w s). x \<noteq> [] \<and> (\<forall>c\<in>set x. \<not> isspace c)"
proof (induction s arbitrary: w)
  case Nil
  then show ?case by simp
next
  case (Cons c cs)
  have empty: "\<forall>x\<in>set (split_words [] cs). x \<noteq> [] \<and> (\<forall>c\<in>set x. \<not> isspace c)"
    by (rule Cons.IH) simp
  show ?case
  proof (cases "isspace c")
    case True
    then show ?thesis
      using Cons.prems empty by simp
  next
    case False
    then have "\<forall>x\<in>set (split_words (w @ [c]) cs). x \<noteq> [] \<and> (\<forall>c\<in>set x. \<not> isspace c)"
      using Cons.prems by (intro Cons.IH) simp
    then show ?thesis
      using False by simp
  qed
qed

lemma py_split_are_words:
  "x \<in> set (py_split s) \<Longrightarrow> x \<noteq> [] \<and> (\<forall>c\<in>set x. \<not> isspace c)"
  unfolding py_split_def using split_words_are_words [of "[]" s] by simp

lemma concat_map_singletons: "\<forall>x\<in>set xs. f x = [x] \<Longrightarrow> concat (map f xs) = xs"
  by (induction xs) simp_all

lemma py_split_py_split: "concat (map py_split (py_split s)) = py_split s"
proof (rule concat_map_singletons, rule ballI)
  fix w assume "w \<in> set (py_split s)"
  then show "py_split w = [w]"
    using py_split_are_words [of w s] py_split_word [of w] by simp
qed

lemma split_words_eq_Nil: "split_words w s = [] \<longleftrightarrow> w = [] \<and> list_all isspace s"
  by (induction s arbitrary: w) auto

lemma py_split_eq_Nil: "py_split s = [] \<longleftrightarrow> list_all isspace s"
  by (simp add: py_split_def split_words_eq_Nil)

lemma strip_eq_Nil: "strip s = [] \<longleftrightarrow> list_all isspace s"
proof -
  have "strip s = [] \<longleftrightarrow> dropWhile isspace (rev s) = []"
    unfolding strip_def
    by (metis dropWhile_eq_Nil_conv hd_dropWhile list.set_sel(1) rev_is_Nil_conv set_rev dropWhile.simps(1))
  then show ?thesis
    by (simp add: dropWhile_eq_Nil_conv list_all_iff)
qed

subsection \<open>\<open>strip\<close>\<close>

lemma strip_Nil: "strip [] = []"
  by (simp add: strip_def)

lemma strip_ends:
  assumes "strip s \<noteq> []"
  shows "\<not> isspace (hd (strip s))" and "\<not> isspace (last (strip s))"
proof -
  show "\<not> isspace (hd (strip s))"
    using assms unfolding strip_def by (rule hd_dropWhile)
  define t where "t = dropWhile isspace (rev s)"
  have st: "strip s = dropWhile isspace (rev t)"
    by (simp add: strip_def t_def)
  then have "dropWhile isspace (rev t) \<noteq> []" using assms by simp
  then obtain x where x: "x \<in> set (rev t)" "\<not> isspace x"
    by (auto simp only: dropWhile_eq_Nil_conv)
  then have t: "t \<noteq> []" by auto
  have "last (strip s) = last (rev t)"
    unfolding st using x by (rule dropWhile_last)
  also have "\<dots> = hd t" using t by (simp add: last_rev)
  finally show "\<not> isspace (last (strip s))"
    using hd_dropWhile [of isspace "rev s"] t by (simp add: t_def)
qed

lemma strip_id:
  assumes "s \<noteq> []" "\<not> isspace (hd s)" "\<not> isspace (last s)"
  shows "strip s = s"
proof -
  have "hd (rev s) = last s" using assms(1) by (simp add: hd_rev)
  then have "dropWhile isspace (rev s) = rev s"
    using assms(3) by (simp add: dropWhile_eq_self_iff)
  moreover have "dropWhile isspace s = s"
    using assms(2) by (simp add: dropWhile_eq_self_iff)
  ultimately show ?thesis by (simp add: strip_def)
qed

lemma strip_strip: "strip (strip s) = strip s"
proof (cases "strip s = []")
  case True
  then show ?thesis by (simp add: strip_Nil)
next
  case False
  then show ?thesis using strip_ends [of s] by (simp add: strip_id)
qed

subsection \<open>\<open>re.split\<close>\<close>

lemma re_split_from_not_Nil: "re_split_from p s \<noteq> []"
  by (induction p s rule: re_split_from.induct) auto

lemma re_split_from_words:
  "concat (map py_split (re_split_from p s)) = py_split (p @ s)"
proof (induction p s rule: re_split_from.induct)
  case (1 piece)
  show ?case by simp
next
  case (2 piece c cs)
  show ?case
  proof (cases "piece \<noteq> [] \<and> is_terminator (last piece) \<and> isspace c")
    case True
    then show ?thesis
      using 2(1) by (simp add: py_split_dropWhile py_split_space)
  next
    case False
    then show ?thesis
      using 2(2) by auto
  qed
qed

lemma re_split_words: "concat (map py_split (re_split text)) = py_split text"
  by (simp add: re_split_def re_split_from_words)

section \<open>Statistics\<close>

text \<open>
  C3 (as the code has it). On the exact string \<open>Hello world. Bye.\<close>, which has 17
  characters and the three whitespace-delimited tokens \<open>Hello\<close>, \<open>world.\<close> and \<open>Bye.\<close>,
  \<open>get_text_stats\<close> returns characters = 17, words = 3 and sentences = 2.
\<close>

theorem get_text_stats_hello:
  "get_text_stats ''Hello world. Bye.'' = \<lparr>characters = 17, words = 3, sentences = 2\<rparr>"
  by (simp add: get_text_stats_def py_split_def re_split_def isspace_def is_terminator_def)

text \<open>
  C3 as stated fails: the result is not characters = 18, words = 4, sentences = 2.
\<close>

theorem get_text_stats_hello_not_18_4_2:
  "get_text_stats ''Hello world. Bye.'' \<noteq> \<lparr>characters = 18, words = 4, sentences = 2\<rparr>"
  by (simp add: get_text_stats_def py_split_def re_split_def isspace_def is_terminator_def)

text \<open>
  C4 fails on the code: \<open>get_text_stats\<close> counts every piece of \<open>re.split\<close>, the empty
  ones too. The text \<open>Hi. \<close> (a space after the period) has the two pieces \<open>Hi.\<close> and the
  empty string; \<open>sentences\<close> is 2, while one piece is not empty and the loop of
  \<open>split_into_chunks\<close> works on one sentence.
\<close>

theorem get_text_stats_counts_empty_segment:
  "sentences (get_text_stats ''Hi. '') = 2
   \<and> length (filter (\<lambda>s. s \<noteq> []) (re_split ''Hi. '')) = 1
   \<and> length (sentences_of ''Hi. '') = 1"
  by (simp add: get_text_stats_def sentences_of_def re_split_def strip_def isspace_def
      is_terminator_def)

section \<open>Chunking\<close>

lemma grouped_init: "grouped [] [] []"
  unfolding grouped_def by (rule exI [of _ "[]"]) simp

lemma grouped_snoc: "grouped chunks pending us \<Longrightarrow> grouped chunks (pending @ [x]) (us @ [x])"
  unfolding grouped_def by auto

lemma grouped_flush:
  assumes "grouped chunks pending us"
  shows "grouped (append_joined chunks pending) [] us"
proof -
  obtain groups where g: "chunks = map (join '' '') groups" "[] \<notin> set groups"
      "concat groups @ pending = us"
    using assms unfolding grouped_def by blast
  show ?thesis
  proof (cases "pending = []")
    case True
    then show ?thesis
      unfolding grouped_def append_joined_def using g by auto
  next
    case False
    then have "append_joined chunks pending = map (join '' '') (groups @ [pending])"
      "[] \<notin> set (groups @ [pending])" "concat (groups @ [pending]) @ [] = us"
      using g by (auto simp: append_joined_def)
    then show ?thesis
      unfolding grouped_def by blast
  qed
qed

lemma word_step_grouped:
  assumes "grouped chunks temp us" "word_step n (chunks, temp, sz) w = (chunks', temp', sz')"
  shows "grouped chunks' temp' (us @ [w])"
proof (cases "sz + int (length w) + 1 \<le> n")
  case True
  then show ?thesis
    using assms grouped_snoc [of chunks temp us w] by simp
next
  case False
  then have "chunks' = append_joined chunks temp" "temp' = [] @ [w]"
    using assms(2) by simp_all
  then show ?thesis
    using grouped_snoc [OF grouped_flush [OF assms(1)], of w] by simp
qed

lemma foldl_word_step_grouped:
  "grouped chunks temp us \<Longrightarrow> foldl (word_step n) (chunks, temp, sz) ws = (chunks', temp', sz')
   \<Longrightarrow> grouped chunks' temp' (us @ ws)"
proof (induction ws arbitrary: chunks temp sz us)
  case Nil
  then show ?case by simp
next
  case (Cons w ws)
  obtain c1 t1 z1 where st: "word_step n (chunks, temp, sz) w = (c1, t1, z1)"
    by (cases "word_step n (chunks, temp, sz) w")
  have "grouped c1 t1 (us @ [w])"
    using word_step_grouped [OF Cons.prems(1) st] .
  moreover have "foldl (word_step n) (c1, t1, z1) ws = (chunks', temp', sz')"
    using Cons.prems(2) st by simp
  ultimately have "grouped chunks' temp' ((us @ [w]) @ ws)"
    by (rule Cons.IH)
  then show ?case by simp
qed

lemma sentence_step_blank:
  "strip raw = [] \<Longrightarrow> sentence_step n st raw = st"
  by (cases st) simp

lemma sentence_step_long:
  assumes "strip raw \<noteq> []" "int (length (strip raw)) > n"
    "foldl (word_step n) (append_joined chunks cur, [], 0) (py_split (strip raw)) = (c2, t2, z2)"
  shows "sentence_step n (chunks, cur, sz) raw =
     (append_joined c2 t2, [], if cur \<noteq> [] then 0 else sz)"
  using assms by (simp add: Let_def)

lemma sentence_step_fits:
  assumes "strip raw \<noteq> []" "\<not> int (length (strip raw)) > n"
    "sz + int (length (strip raw)) + 1 \<le> n"
  shows "sentence_step n (chunks, cur, sz) raw =
     (chunks, cur @ [strip raw], sz + int (length (strip raw)) + 1)"
  using assms by (simp add: Let_def)

lemma sentence_step_new:
  assumes "strip raw \<noteq> []" "\<not> int (length (strip raw)) > n"
    "\<not> sz + int (length (strip raw)) + 1 \<le> n"
  shows "sentence_step n (chunks, cur, sz) raw =
     (append_joined chunks cur, [strip raw], int (length (strip raw)))"
  using assms by (simp add: Let_def)

lemma sentence_step_grouped:
  assumes "grouped chunks cur us" "sentence_step n (chunks, cur, sz) raw = (chunks', cur', sz')"
  shows "grouped chunks' cur' (us @ (if strip raw = [] then [] else units n (strip raw)))"
proof (cases "strip raw = []")
  case True
  then show ?thesis using assms by (simp add: sentence_step_blank)
next
  case False
  note nonblank = this
  show ?thesis
  proof (cases "int (length (strip raw)) > n")
    case True
    obtain c2 t2 z2 where w:
      "foldl (word_step n) (append_joined chunks cur, [], 0) (py_split (strip raw)) = (c2, t2, z2)"
      by (cases "foldl (word_step n) (append_joined chunks cur, [], 0) (py_split (strip raw))")
    have "grouped c2 t2 (us @ py_split (strip raw))"
      using foldl_word_step_grouped [OF grouped_flush [OF assms(1)] w] .
    then have "grouped (append_joined c2 t2) [] (us @ py_split (strip raw))"
      by (rule grouped_flush)
    moreover have "chunks' = append_joined c2 t2" "cur' = []"
      using sentence_step_long [OF nonblank True w, where sz = sz] assms(2) by simp_all
    ultimately show ?thesis
      using nonblank True by (simp add: units_def)
  next
    case False
    note short = this
    show ?thesis
    proof (cases "sz + int (length (strip raw)) + 1 \<le> n")
      case True
      have "chunks' = chunks" "cur' = cur @ [strip raw]"
        using sentence_step_fits [OF nonblank short True, of chunks cur] assms(2) by simp_all
      then show ?thesis
        using grouped_snoc [OF assms(1), of "strip raw"] nonblank short by (simp add: units_def)
    next
      case False
      have "chunks' = append_joined chunks cur" "cur' = [] @ [strip raw]"
        using sentence_step_new [OF nonblank short False, of chunks cur] assms(2) by simp_all
      then show ?thesis
        using grouped_snoc [OF grouped_flush [OF assms(1)], of "strip raw"] nonblank short
        by (simp add: units_def)
    qed
  qed
qed

lemma concat_map_sentences:
  "concat (map (\<lambda>raw. if strip raw = [] then [] else f (strip raw)) raws)
     = concat (map f (filter (\<lambda>s. s \<noteq> []) (map strip raws)))"
  by (induction raws) simp_all

lemma foldl_sentence_step_grouped:
  "grouped chunks cur us \<Longrightarrow> foldl (sentence_step n) (chunks, cur, sz) raws = (chunks', cur', sz')
   \<Longrightarrow> grouped chunks' cur'
        (us @ concat (map (units n) (filter (\<lambda>s. s \<noteq> []) (map strip raws))))"
proof (induction raws arbitrary: chunks cur sz us)
  case Nil
  then show ?case by simp
next
  case (Cons raw raws)
  obtain c1 t1 z1 where st: "sentence_step n (chunks, cur, sz) raw = (c1, t1, z1)"
    by (cases "sentence_step n (chunks, cur, sz) raw")
  have "grouped c1 t1 (us @ (if strip raw = [] then [] else units n (strip raw)))"
    using sentence_step_grouped [OF Cons.prems(1) st] .
  moreover have "foldl (sentence_step n) (c1, t1, z1) raws = (chunks', cur', sz')"
    using Cons.prems(2) st by simp
  ultimately have "grouped chunks' cur'
      ((us @ (if strip raw = [] then [] else units n (strip raw)))
        @ concat (map (units n) (filter (\<lambda>s. s \<noteq> []) (map strip raws))))"
    by (rule Cons.IH)
  then show ?case by (cases "strip raw = []") simp_all
qed

lemma re_split_Nil: "re_split [] = [[]]"
  by (simp add: re_split_def)

lemma sentences_of_Nil: "sentences_of [] = []"
  by (simp add: sentences_of_def re_split_Nil strip_Nil)

lemma split_into_chunks_grouped:
  "\<exists>groups. split_into_chunks text n = map (join '' '') groups \<and> [] \<notin> set groups
     \<and> concat groups = concat (map (units n) (sentences_of text))"
proof (cases "text = []")
  case True
  then show ?thesis
    by (simp add: split_into_chunks_def sentences_of_Nil)
next
  case False
  obtain c1 t1 z1 where st:
    "foldl (sentence_step n) ([], [], 0) (re_split text) = (c1, t1, z1)"
    by (cases "foldl (sentence_step n) ([], [], 0) (re_split text)")
  have "grouped c1 t1 ([] @ concat (map (units n) (sentences_of text)))"
    unfolding sentences_of_def
    using foldl_sentence_step_grouped [OF grouped_init st] .
  then have "grouped (append_joined c1 t1) [] (concat (map (units n) (sentences_of text)))"
    using grouped_flush by simp
  moreover have "split_into_chunks text n = append_joined c1 t1"
    using False st by (simp add: split_into_chunks_def)
  ultimately show ?thesis
    unfolding grouped_def by simp
qed

lemma within_init: "within n W ([], [], 0)"
  by (simp add: within_def)

lemma within_flush:
  assumes "within n W (chunks, pending, sz)"
  shows "\<forall>c\<in>set (append_joined chunks pending). int (length c) \<le> n \<or> c \<in> W"
proof (cases "pending = []")
  case True
  then show ?thesis using assms by (simp add: within_def append_joined_def)
next
  case False
  have "int (length (join '' '' pending)) \<le> n \<or> join '' '' pending \<in> W"
    using assms False by (auto simp: within_def)
  then show ?thesis
    using assms False by (auto simp: within_def append_joined_def)
qed

lemma within_restart:
  assumes "within n W (chunks, pending, sz)" "0 \<le> sz'"
  shows "within n W (append_joined chunks pending, [], sz')"
  using within_flush [OF assms(1)] assms(2) by (simp add: within_def)

lemma within_single:
  assumes "within n W (chunks, pending, sz)" "int (length x) \<le> n \<or> x \<in> W"
  shows "within n W (append_joined chunks pending, [x], int (length x))"
  using within_flush [OF assms(1)] assms(2) by (auto simp: within_def)

lemma within_snoc:
  assumes "within n W (chunks, pending, sz)" "sz + int (length x) + 1 \<le> n"
  shows "within n W (chunks, pending @ [x], sz + int (length x) + 1)"
proof -
  have "int (length (join '' '' (pending @ [x]))) \<le> int (length (join '' '' pending)) + int (length x) + 1"
    by (rule length_join_snoc)
  then show ?thesis
    using assms by (auto simp: within_def)
qed

lemma word_step_within:
  assumes "within n W (chunks, temp, sz)" "w \<in> W"
  shows "within n W (word_step n (chunks, temp, sz) w)"
proof (cases "sz + int (length w) + 1 \<le> n")
  case True
  then show ?thesis using within_snoc [OF assms(1) True] by simp
next
  case False
  then show ?thesis using within_single [OF assms(1), of w] assms(2) by simp
qed

lemma foldl_word_step_within:
  "within n W st \<Longrightarrow> set ws \<subseteq> W \<Longrightarrow> within n W (foldl (word_step n) st ws)"
proof (induction ws arbitrary: st)
  case Nil
  then show ?case by simp
next
  case (Cons w ws)
  obtain chunks temp sz where st: "st = (chunks, temp, sz)" by (cases st)
  have "within n W (word_step n st w)"
    using word_step_within [of n W chunks temp sz w] Cons.prems st by simp
  then show ?case
    using Cons.IH [of "word_step n st w"] Cons.prems(2) by simp
qed

lemma sentence_step_within:
  assumes "within n W (chunks, cur, sz)" "set (py_split (strip raw)) \<subseteq> W"
  shows "within n W (sentence_step n (chunks, cur, sz) raw)"
proof (cases "strip raw = []")
  case True
  then show ?thesis using assms(1) by (simp add: sentence_step_blank)
next
  case False
  note nonblank = this
  have sz: "0 \<le> sz" using assms(1) by (simp add: within_def)
  show ?thesis
  proof (cases "int (length (strip raw)) > n")
    case True
    obtain c2 t2 z2 where w:
      "foldl (word_step n) (append_joined chunks cur, [], 0) (py_split (strip raw)) = (c2, t2, z2)"
      by (cases "foldl (word_step n) (append_joined chunks cur, [], 0) (py_split (strip raw))")
    have "within n W (append_joined chunks cur, [], 0)"
      using within_restart [OF assms(1), of 0] by simp
    then have "within n W (c2, t2, z2)"
      using foldl_word_step_within [of n W _ "py_split (strip raw)"] assms(2) w by fastforce
    then have "within n W (append_joined c2 t2, [], if cur \<noteq> [] then 0 else sz)"
      using sz by (intro within_restart) simp_all
    then show ?thesis
      using sentence_step_long [OF nonblank True w, where sz = sz] by simp
  next
    case False
    note short = this
    show ?thesis
    proof (cases "sz + int (length (strip raw)) + 1 \<le> n")
      case True
      then show ?thesis
        using sentence_step_fits [OF nonblank short True, of chunks cur]
          within_snoc [OF assms(1) True] by simp
    next
      case False
      then show ?thesis
        using sentence_step_new [OF nonblank short False, of chunks cur]
          within_single [OF assms(1), of "strip raw"] short by simp
    qed
  qed
qed

lemma foldl_sentence_step_within:
  "within n W st \<Longrightarrow> \<forall>raw\<in>set raws. set (py_split (strip raw)) \<subseteq> W
   \<Longrightarrow> within n W (foldl (sentence_step n) st raws)"
proof (induction raws arbitrary: st)
  case Nil
  then show ?case by simp
next
  case (Cons raw raws)
  obtain chunks cur sz where st: "st = (chunks, cur, sz)" by (cases st)
  have "within n W (sentence_step n st raw)"
    using sentence_step_within [of n W chunks cur sz raw] Cons.prems st by simp
  then show ?case
    using Cons.IH [of "sentence_step n st raw"] Cons.prems(2) by simp
qed

lemma re_split_piece_words:
  assumes "raw \<in> set (re_split text)"
  shows "set (py_split (strip raw)) \<subseteq> set (py_split text)"
proof -
  have "set (py_split raw) \<subseteq> set (concat (map py_split (re_split text)))"
    using assms by auto
  then show ?thesis
    by (simp add: re_split_words py_split_strip)
qed

lemma split_into_chunks_within:
  "\<forall>c\<in>set (split_into_chunks text n). int (length c) \<le> n \<or> c \<in> set (py_split text)"
proof (cases "text = []")
  case True
  then show ?thesis by (simp add: split_into_chunks_def)
next
  case False
  obtain c1 t1 z1 where st:
    "foldl (sentence_step n) ([], [], 0) (re_split text) = (c1, t1, z1)"
    by (cases "foldl (sentence_step n) ([], [], 0) (re_split text)")
  have "within n (set (py_split text)) (foldl (sentence_step n) ([], [], 0) (re_split text))"
    by (rule foldl_sentence_step_within [OF within_init]) (simp add: re_split_piece_words)
  then have "\<forall>c\<in>set (append_joined c1 t1). int (length c) \<le> n \<or> c \<in> set (py_split text)"
    using st within_flush by simp
  moreover have "split_into_chunks text n = append_joined c1 t1"
    using False st by (simp add: split_into_chunks_def)
  ultimately show ?thesis by simp
qed

subsection \<open>Words are kept\<close>

lemma concat_map_concat: "concat (map f (concat xss)) = concat (map (\<lambda>xs. concat (map f xs)) xss)"
  by (induction xss) simp_all

lemma py_split_units: "concat (map py_split (units n s)) = py_split s"
  by (simp add: units_def py_split_py_split)

lemma py_split_Nil: "py_split [] = []"
  by (simp add: py_split_def)

lemma py_split_sentences:
  "concat (map py_split (filter (\<lambda>s. s \<noteq> []) (map strip raws))) = concat (map py_split raws)"
proof (induction raws)
  case Nil
  show ?case by simp
next
  case (Cons raw raws)
  show ?case
  proof (cases "strip raw = []")
    case True
    then have "py_split raw = []"
      using py_split_strip [of raw] by (simp add: py_split_Nil)
    then show ?thesis using True Cons by simp
  next
    case False
    then show ?thesis using Cons by (simp add: py_split_strip)
  qed
qed

lemma sentences_of_words: "concat (map py_split (sentences_of text)) = py_split text"
  by (simp add: sentences_of_def py_split_sentences re_split_words)

lemma split_into_chunks_words:
  "concat (map py_split (split_into_chunks text n)) = py_split text"
proof -
  obtain groups where g: "split_into_chunks text n = map (join '' '') groups"
      "concat groups = concat (map (units n) (sentences_of text))"
    using split_into_chunks_grouped [of "text" n] by blast
  have "concat (map py_split (split_into_chunks text n))
      = concat (map (\<lambda>g. concat (map py_split g)) groups)"
    by (simp add: g(1) py_split_join comp_def)
  also have "\<dots> = concat (map py_split (concat groups))"
    by (simp add: concat_map_concat)
  also have "\<dots> = concat (map (\<lambda>s. concat (map py_split (units n s))) (sentences_of text))"
    by (simp add: g(2) concat_map_concat comp_def)
  also have "\<dots> = py_split text"
    by (simp add: py_split_units sentences_of_words)
  finally show ?thesis .
qed

lemma sentences_of_eq_Nil: "sentences_of text = [] \<longleftrightarrow> list_all isspace text"
proof
  assume "sentences_of text = []"
  then have "py_split text = []"
    using sentences_of_words [of "text"] by simp
  then show "list_all isspace text" by (simp add: py_split_eq_Nil)
next
  assume "list_all isspace text"
  then have "concat (map py_split (re_split text)) = []"
    by (simp add: re_split_words py_split_eq_Nil)
  then have "\<forall>raw\<in>set (re_split text). strip raw = []"
    by (simp add: py_split_eq_Nil strip_eq_Nil)
  then show "sentences_of text = []"
    by (simp add: sentences_of_def filter_empty_conv)
qed

lemma sentences_of_strip:
  assumes "s \<in> set (sentences_of text)"
  shows "s \<noteq> []" and "strip s = s" and "py_split s \<noteq> []"
proof -
  have "s \<noteq> [] \<and> s \<in> strip ` set (re_split text)"
    using assms by (simp add: sentences_of_def)
  then show "s \<noteq> []" and "strip s = s"
    by (auto simp: strip_strip)
  then show "py_split s \<noteq> []"
    by (simp add: py_split_eq_Nil flip: strip_eq_Nil)
qed

lemma units_not_Nil: "s \<in> set (sentences_of text) \<Longrightarrow> units n s \<noteq> []"
  using sentences_of_strip(3) [of s "text"] by (simp add: units_def)

lemma split_into_chunks_eq_Nil: "split_into_chunks text n = [] \<longleftrightarrow> list_all isspace text"
proof -
  obtain groups where g: "split_into_chunks text n = map (join '' '') groups"
      "[] \<notin> set groups" "concat groups = concat (map (units n) (sentences_of text))"
    using split_into_chunks_grouped [of "text" n] by blast
  have units: "units n s \<noteq> []" if "s \<in> set (sentences_of text)" for s
    using that by (rule units_not_Nil)
  have "split_into_chunks text n = [] \<longleftrightarrow> groups = []" by (simp add: g(1))
  also have "\<dots> \<longleftrightarrow> concat groups = []" using g(2) by (cases groups) auto
  also have "\<dots> \<longleftrightarrow> sentences_of text = []"
    using units by (cases "sentences_of text") (auto simp: g(3))
  finally show ?thesis by (simp add: sentences_of_eq_Nil)
qed

lemma split_into_chunks_nonblank: "\<forall>c\<in>set (split_into_chunks text n). py_split c \<noteq> []"
proof -
  obtain groups where g: "split_into_chunks text n = map (join '' '') groups"
      "[] \<notin> set groups" "concat groups = concat (map (units n) (sentences_of text))"
    using split_into_chunks_grouped [of "text" n] by blast
  have u: "py_split u \<noteq> []" if "u \<in> set (concat groups)" for u
  proof -
    have "u \<in> set (concat (map (units n) (sentences_of text)))"
      using that by (simp only: g(3))
    then obtain s where s: "s \<in> set (sentences_of text)" "u \<in> set (units n s)"
      by auto
    have "py_split s \<noteq> []"
      using s(1) by (rule sentences_of_strip(3))
    then show ?thesis
      using s(2) py_split_are_words [of u s] py_split_word [of u]
      by (auto simp: units_def split: if_splits)
  qed
  show ?thesis
  proof
    fix c assume "c \<in> set (split_into_chunks text n)"
    then obtain grp where grp: "grp \<in> set groups" "c = join '' '' grp"
      by (auto simp: g(1))
    then have "grp \<noteq> []" using g(2) by auto
    then obtain x xs where "grp = x # xs" by (cases grp) auto
    then have "x \<in> set grp" by simp
    then have "x \<in> set (concat groups)"
      unfolding set_concat using grp(1) by blast
    then have "py_split x \<noteq> []" by (rule u)
    then show "py_split c \<noteq> []"
      using \<open>grp = x # xs\<close> grp(2) by (simp add: py_split_join)
  qed
qed

lemma split_into_chunks_no_empty: "[] \<notin> set (split_into_chunks text n)"
  using split_into_chunks_nonblank [of "text" n] py_split_Nil by blast

subsection \<open>Sentence boundaries\<close>

lemma terminator_not_space: "is_terminator c \<Longrightarrow> \<not> isspace c"
  by (auto simp: is_terminator_def isspace_def)

lemma no_boundary_Cons:
  "no_boundary (c # s) \<longleftrightarrow> no_boundary s \<and> \<not> (s \<noteq> [] \<and> is_terminator c \<and> isspace (hd s))"
  by (cases s) auto

lemma no_boundary_append:
  "no_boundary (a @ b) \<longleftrightarrow>
     no_boundary a \<and> no_boundary b
     \<and> \<not> (a \<noteq> [] \<and> b \<noteq> [] \<and> is_terminator (last a) \<and> isspace (hd b))"
proof (induction a)
  case Nil
  show ?case by simp
next
  case (Cons c a)
  show ?case
  proof (cases "a = []")
    case True
    then show ?thesis by (simp add: no_boundary_Cons)
  next
    case False
    then show ?thesis
      using Cons by (simp add: no_boundary_Cons) blast
  qed
qed

lemma no_boundary_dropWhile: "no_boundary s \<Longrightarrow> no_boundary (dropWhile P s)"
  using no_boundary_append [of "takeWhile P s" "dropWhile P s"] by simp

lemma no_boundary_rstrip: "no_boundary s \<Longrightarrow> no_boundary (rev (dropWhile P (rev s)))"
proof -
  have "rev (dropWhile P (rev s)) @ rev (takeWhile P (rev s)) = s"
    by (metis rev_append rev_rev_ident takeWhile_dropWhile_id)
  then show "no_boundary s \<Longrightarrow> no_boundary (rev (dropWhile P (rev s)))"
    using no_boundary_append [of "rev (dropWhile P (rev s))" "rev (takeWhile P (rev s))"]
    by simp
qed

lemma no_boundary_strip: "no_boundary s \<Longrightarrow> no_boundary (strip s)"
  by (simp add: strip_def no_boundary_dropWhile no_boundary_rstrip)

subsection \<open>The pieces of \<open>re.split\<close>\<close>

lemma re_split_from_match:
  "piece \<noteq> [] \<Longrightarrow> is_terminator (last piece) \<Longrightarrow> isspace c
   \<Longrightarrow> re_split_from piece (c # cs) = piece # re_split_from [] (dropWhile isspace cs)"
  by simp

lemma re_split_from_step:
  "\<not> (piece \<noteq> [] \<and> is_terminator (last piece) \<and> isspace c)
   \<Longrightarrow> re_split_from piece (c # cs) = re_split_from (piece @ [c]) cs"
  by auto

lemma re_split_from_no_boundary:
  "no_boundary p \<Longrightarrow> \<forall>x\<in>set (re_split_from p s). no_boundary x"
proof (induction p s rule: re_split_from.induct)
  case (1 piece)
  then show ?case by simp
next
  case (2 piece c cs)
  show ?case
  proof (cases "piece \<noteq> [] \<and> is_terminator (last piece) \<and> isspace c")
    case True
    then have "\<forall>x\<in>set (re_split_from [] (dropWhile isspace cs)). no_boundary x"
      using 2(1) by simp
    moreover have "re_split_from piece (c # cs) = piece # re_split_from [] (dropWhile isspace cs)"
      using True by (intro re_split_from_match) simp_all
    ultimately show ?thesis
      using 2(3) by simp
  next
    case False
    then have "no_boundary (piece @ [c])"
      using 2(3) by (auto simp: no_boundary_append)
    then have "\<forall>x\<in>set (re_split_from (piece @ [c]) cs). no_boundary x"
      using 2(2) False by blast
    then show ?thesis
      by (simp only: re_split_from_step [OF False])
  qed
qed

lemma re_split_from_butlast:
  "\<forall>x\<in>set (butlast (re_split_from p s)). x \<noteq> [] \<and> is_terminator (last x)"
proof (induction p s rule: re_split_from.induct)
  case (1 piece)
  then show ?case by simp
next
  case (2 piece c cs)
  show ?case
  proof (cases "piece \<noteq> [] \<and> is_terminator (last piece) \<and> isspace c")
    case True
    then have "\<forall>x\<in>set (butlast (re_split_from [] (dropWhile isspace cs))).
        x \<noteq> [] \<and> is_terminator (last x)"
      using 2(1) by blast
    moreover have "re_split_from piece (c # cs) = piece # re_split_from [] (dropWhile isspace cs)"
      using True by (intro re_split_from_match) simp_all
    ultimately show ?thesis
      using True by (simp add: re_split_from_not_Nil)
  next
    case False
    then have "\<forall>x\<in>set (butlast (re_split_from (piece @ [c]) cs)).
        x \<noteq> [] \<and> is_terminator (last x)"
      using 2(2) by blast
    then show ?thesis
      by (simp only: re_split_from_step [OF False])
  qed
qed

lemma re_split_from_run:
  "no_boundary (p @ s) \<Longrightarrow> re_split_from p (s @ r) = re_split_from (p @ s) r"
proof (induction s arbitrary: p)
  case Nil
  show ?case by simp
next
  case (Cons c cs)
  have "\<not> (p \<noteq> [] \<and> is_terminator (last p) \<and> isspace c)"
    using Cons.prems by (auto simp: no_boundary_append)
  then have "re_split_from p (c # (cs @ r)) = re_split_from (p @ [c]) (cs @ r)"
    by (rule re_split_from_step)
  then have "re_split_from p ((c # cs) @ r) = re_split_from (p @ [c]) (cs @ r)"
    by simp
  also have "\<dots> = re_split_from ((p @ [c]) @ cs) r"
    using Cons.prems by (intro Cons.IH) simp
  finally show ?case by simp
qed

lemma re_split_one: "no_boundary s \<Longrightarrow> re_split s = [s]"
  using re_split_from_run [of "[]" s "[]"] by (simp add: re_split_def)

lemma strip_terminated:
  assumes "x \<noteq> []" "is_terminator (last x)"
  shows "strip x \<noteq> []" and "last (strip x) = last x"
proof -
  have ns: "\<not> isspace (last x)" using assms(2) by (rule terminator_not_space)
  have "hd (rev x) = last x" using assms(1) by (simp add: hd_rev)
  then have "dropWhile isspace (rev x) = rev x"
    using ns by (simp add: dropWhile_eq_self_iff)
  then have st: "strip x = dropWhile isspace x" by (simp add: strip_def)
  have mem: "last x \<in> set x" using assms(1) by simp
  show "last (strip x) = last x"
    unfolding st using mem ns by (rule dropWhile_last)
  show "strip x \<noteq> []"
    unfolding st using mem ns by auto
qed

lemma butlast_filter_map:
  assumes "\<forall>x\<in>set (butlast xs). T x" "\<And>x. T x \<Longrightarrow> keep (f x) \<and> T' (f x)"
  shows "\<forall>y\<in>set (butlast (filter keep (map f xs))). T' y"
proof (cases "xs = []")
  case True
  then show ?thesis by simp
next
  case False
  define ys z where "ys = butlast xs" and "z = last xs"
  have xs: "xs = ys @ [z]" using False by (simp add: ys_def z_def)
  have all: "\<forall>x\<in>set ys. keep (f x) \<and> T' (f x)"
    using assms by (simp add: ys_def)
  then have kept: "filter keep (map f ys) = map f ys" by (simp add: filter_id_conv)
  show ?thesis
  proof (cases "keep (f z)")
    case True
    then have "butlast (filter keep (map f xs)) = map f ys"
      by (simp add: xs kept butlast_append)
    then show ?thesis using all by simp
  next
    case False
    then have "filter keep (map f xs) = map f ys" by (simp add: xs kept)
    moreover have "set (butlast (map f ys)) \<subseteq> set (map f ys)"
      by (auto dest: in_set_butlastD)
    ultimately show ?thesis using all by auto
  qed
qed

lemma sentences_of_butlast:
  "\<forall>s\<in>set (butlast (sentences_of text)). is_terminator (last s)"
  unfolding sentences_of_def re_split_def
proof (rule butlast_filter_map [where T = "\<lambda>x. x \<noteq> [] \<and> is_terminator (last x)"])
  show "\<forall>x\<in>set (butlast (re_split_from [] text)). x \<noteq> [] \<and> is_terminator (last x)"
    by (rule re_split_from_butlast)
next
  fix x :: string
  assume "x \<noteq> [] \<and> is_terminator (last x)"
  then show "strip x \<noteq> [] \<and> is_terminator (last (strip x))"
    using strip_terminated [of x] by simp
qed

lemma sentences_of_is_sentence: "\<forall>s\<in>set (sentences_of text). is_sentence s"
proof
  fix s assume s: "s \<in> set (sentences_of text)"
  then obtain raw where raw: "raw \<in> set (re_split text)" "s = strip raw" "s \<noteq> []"
    by (auto simp: sentences_of_def)
  have "no_boundary raw"
    using re_split_from_no_boundary [of "[]" "text"] raw(1) by (simp add: re_split_def)
  then have "no_boundary s" unfolding raw(2) by (rule no_boundary_strip)
  moreover have "\<not> isspace (hd s)" "\<not> isspace (last s)"
    using strip_ends [of raw] raw(2,3) by simp_all
  ultimately show "is_sentence s"
    using raw(3) by (simp add: is_sentence_def)
qed

subsection \<open>Splitting a join of sentences\<close>

lemma join_Cons_append:
  "join sep (y # ys) = y @ (if ys = [] then [] else sep @ join sep ys)"
  by (cases ys) simp_all

lemma re_split_join:
  "ss \<noteq> [] \<Longrightarrow> \<forall>s\<in>set ss. is_sentence s \<Longrightarrow> \<forall>s\<in>set (butlast ss). is_terminator (last s)
   \<Longrightarrow> re_split (join '' '' ss) = ss"
proof (induction ss)
  case Nil
  then show ?case by simp
next
  case (Cons x ss)
  have x: "x \<noteq> []" "no_boundary x"
    using Cons.prems(2) by (simp_all add: is_sentence_def)
  show ?case
  proof (cases "ss = []")
    case True
    then show ?thesis using x(2) by (simp add: re_split_one)
  next
    case False
    define J where "J = join '' '' ss"
    obtain y ys where ss: "ss = y # ys" using False by (cases ss) auto
    have y: "y \<noteq> []" "\<not> isspace (hd y)"
      using Cons.prems(2) ss by (simp_all add: is_sentence_def)
    have "J = y @ (if ys = [] then [] else '' '' @ join '' '' ys)"
      unfolding J_def ss by (rule join_Cons_append)
    then have J: "J \<noteq> []" "hd J = hd y"
      using y(1) by simp_all
    have tx: "is_terminator (last x)"
      using Cons.prems(3) False by simp
    have IH: "re_split J = ss"
      unfolding J_def using False Cons.prems(2,3) by (intro Cons.IH) simp_all
    have "join '' '' (x # ss) = x @ (CHR '' '' # J)"
      using False by (simp add: join_Cons J_def)
    then have "re_split (join '' '' (x # ss)) = re_split_from [] (x @ (CHR '' '' # J))"
      by (simp only: re_split_def)
    also have "\<dots> = re_split_from ([] @ x) (CHR '' '' # J)"
      by (rule re_split_from_run) (simp add: x(2))
    also have "\<dots> = re_split_from x (CHR '' '' # J)"
      by simp
    also have "\<dots> = x # re_split_from [] (dropWhile isspace J)"
      using x(1) tx isspace_blank by (rule re_split_from_match)
    also have "dropWhile isspace J = J"
      using J y(2) by (simp add: dropWhile_eq_self_iff)
    also have "re_split_from [] J = ss"
      using IH by (simp only: re_split_def)
    finally show ?thesis .
  qed
qed

lemma sentences_of_join:
  assumes "\<forall>s\<in>set ss. is_sentence s" "\<forall>s\<in>set (butlast ss). is_terminator (last s)"
  shows "sentences_of (join '' '' ss) = ss"
proof (cases "ss = []")
  case True
  then show ?thesis by (simp add: sentences_of_Nil)
next
  case False
  have "\<forall>s\<in>set ss. strip s = s"
    using assms(1) by (simp add: is_sentence_def strip_id)
  then have "map strip ss = ss"
    by (simp add: map_idI)
  moreover have "filter (\<lambda>s. s \<noteq> []) ss = ss"
    using assms(1) by (simp add: filter_id_conv is_sentence_def)
  moreover have "re_split (join '' '' ss) = ss"
    using False assms by (rule re_split_join)
  ultimately show ?thesis
    by (simp add: sentences_of_def)
qed

subsection \<open>A sentence with its words joined again\<close>

lemma split_words_last:
  "w @ s \<noteq> [] \<Longrightarrow> \<not> isspace (last (w @ s))
   \<Longrightarrow> split_words w s \<noteq> [] \<and> last (last (split_words w s)) = last (w @ s)"
proof (induction s arbitrary: w)
  case Nil
  then show ?case by simp
next
  case (Cons c cs)
  show ?case
  proof (cases "isspace c")
    case True
    then have cs: "cs \<noteq> []" using Cons.prems(2) by auto
    then have "\<not> isspace (last ([] @ cs))" using Cons.prems(2) by simp
    then have "split_words [] cs \<noteq> [] \<and> last (last (split_words [] cs)) = last ([] @ cs)"
      using cs by (intro Cons.IH) simp_all
    then show ?thesis using True cs by simp
  next
    case False
    have "split_words (w @ [c]) cs \<noteq> []
        \<and> last (last (split_words (w @ [c]) cs)) = last ((w @ [c]) @ cs)"
      using Cons.prems by (intro Cons.IH) simp_all
    then show ?thesis using False by simp
  qed
qed

lemma no_boundary_space_Cons: "no_boundary (CHR '' '' # s) = no_boundary s"
  by (simp add: no_boundary_Cons is_terminator_def)

lemma split_words_no_boundary:
  "no_boundary (w @ s) \<Longrightarrow> \<forall>c\<in>set w. \<not> isspace c
   \<Longrightarrow> no_boundary (join '' '' (split_words w s))"
proof (induction s arbitrary: w)
  case Nil
  then show ?case by simp
next
  case (Cons c cs)
  have parts: "no_boundary w" "no_boundary (c # cs)"
    "\<not> (w \<noteq> [] \<and> is_terminator (last w) \<and> isspace c)"
    using Cons.prems(1) by (simp_all add: no_boundary_append)
  show ?case
  proof (cases "isspace c")
    case True
    have "no_boundary ([] @ cs)"
      using parts(2) by (simp add: no_boundary_Cons)
    then have rest: "no_boundary (join '' '' (split_words [] cs))"
      by (rule Cons.IH) simp
    show ?thesis
    proof (cases "w = []")
      case True
      then show ?thesis using \<open>isspace c\<close> rest by simp
    next
      case False
      then have nt: "\<not> is_terminator (last w)" using parts(3) True by simp
      show ?thesis
      proof (cases "split_words [] cs = []")
        case True
        then show ?thesis using \<open>isspace c\<close> False parts(1) by simp
      next
        case False
        then have "join '' '' (w # split_words [] cs) = w @ (CHR '' '' # join '' '' (split_words [] cs))"
          by (simp add: join_Cons)
        moreover have "no_boundary (w @ (CHR '' '' # join '' '' (split_words [] cs)))"
          using parts(1) rest nt by (simp add: no_boundary_append no_boundary_space_Cons)
        ultimately show ?thesis using \<open>isspace c\<close> \<open>w \<noteq> []\<close> by simp
      qed
    qed
  next
    case False
    have "no_boundary (join '' '' (split_words (w @ [c]) cs))"
      using Cons.prems False by (intro Cons.IH) simp_all
    then show ?thesis using False by simp
  qed
qed

lemma is_sentence_rejoined:
  assumes "is_sentence s"
  shows "is_sentence (join '' '' (py_split s))" and "last (join '' '' (py_split s)) = last s"
proof -
  have s: "s \<noteq> []" "\<not> isspace (last s)" "no_boundary s"
    using assms by (simp_all add: is_sentence_def)
  have ws: "py_split s \<noteq> []" "last (last (py_split s)) = last s"
    using split_words_last [of "[]" s] s(1,2) by (simp_all add: py_split_def)
  have words: "\<forall>x\<in>set (py_split s). x \<noteq> [] \<and> (\<forall>c\<in>set x. \<not> isspace c)"
    using py_split_are_words by blast
  have "hd (py_split s) \<in> set (py_split s)" "last (py_split s) \<in> set (py_split s)"
    using ws(1) by simp_all
  then have hdw: "hd (py_split s) \<noteq> []" "\<forall>c\<in>set (hd (py_split s)). \<not> isspace c"
    and lastw: "last (py_split s) \<noteq> []"
    using words by blast+
  have nonempty: "join '' '' (py_split s) \<noteq> []"
    using ws(1) lastw by (rule join_not_Nil)
  have "hd (join '' '' (py_split s)) = hd (hd (py_split s))"
    using ws(1) hdw(1) by (rule hd_join)
  then have first: "\<not> isspace (hd (join '' '' (py_split s)))"
    using hdw by (simp add: hd_in_set)
  show final: "last (join '' '' (py_split s)) = last s"
    using last_join [OF ws(1) lastw, of "'' ''"] ws(2) by simp
  have "no_boundary (join '' '' (py_split s))"
    using split_words_no_boundary [of "[]" s] s(3) by (simp add: py_split_def)
  then show "is_sentence (join '' '' (py_split s))"
    using nonempty first final s(2) by (simp add: is_sentence_def)
qed

lemma normalise_sentence:
  assumes "is_sentence s"
  shows "is_sentence (normalise n s)" and "last (normalise n s) = last s"
  using assms is_sentence_rejoined [OF assms] by (simp_all add: normalise_def units_def)

subsection \<open>Joining the chunks again\<close>

lemma combine_chunks_split:
  "combine_chunks (split_into_chunks text n) = join '' '' (map (normalise n) (sentences_of text))"
proof -
  obtain groups where g: "split_into_chunks text n = map (join '' '') groups"
      "[] \<notin> set groups" "concat groups = concat (map (units n) (sentences_of text))"
    using split_into_chunks_grouped [of "text" n] by blast
  have "[] \<notin> set (map (units n) (sentences_of text))"
  proof
    assume "[] \<in> set (map (units n) (sentences_of text))"
    then obtain x where "x \<in> set (sentences_of text)" "units n x = []" by auto
    then show False using units_not_Nil [of x "text" n] by simp
  qed
  then have flat: "join '' '' (map (join '' '') (map (units n) (sentences_of text)))
      = join '' '' (concat (map (units n) (sentences_of text)))"
    by (rule join_concat)
  have norm: "map (normalise n) (sentences_of text)
      = map (join '' '') (map (units n) (sentences_of text))"
    by (simp add: normalise_def comp_def)
  have "combine_chunks (split_into_chunks text n) = join '' '' (concat groups)"
    unfolding combine_chunks_def g(1) using g(2) by (rule join_concat)
  also have "\<dots> = join '' '' (concat (map (units n) (sentences_of text)))"
    by (simp only: g(3))
  also have "\<dots> = join '' '' (map (join '' '') (map (units n) (sentences_of text)))"
    by (simp only: flat)
  also have "\<dots> = join '' '' (map (normalise n) (sentences_of text))"
    by (simp only: norm)
  finally show ?thesis .
qed

lemma butlast_map_normalise:
  assumes "\<forall>s\<in>set ss. is_sentence s" "\<forall>s\<in>set (butlast ss). is_terminator (last s)"
  shows "\<forall>s\<in>set (butlast (map (normalise n) ss)). is_terminator (last s)"
proof -
  have "\<forall>s\<in>set (butlast ss). is_sentence s"
    using assms(1) by (auto dest: in_set_butlastD)
  then have "\<forall>s\<in>set (butlast ss). is_terminator (last (normalise n s))"
    using assms(2) by (simp add: normalise_sentence(2))
  then show ?thesis by (simp add: map_butlast [symmetric])
qed

lemma sentences_of_rejoined:
  "sentences_of (combine_chunks (split_into_chunks text n))
     = map (normalise n) (sentences_of text)"
proof -
  have "\<forall>s\<in>set (map (normalise n) (sentences_of text)). is_sentence s"
    using sentences_of_is_sentence [of "text"] by (simp add: normalise_sentence(1))
  moreover have "\<forall>s\<in>set (butlast (map (normalise n) (sentences_of text))). is_terminator (last s)"
    using sentences_of_is_sentence sentences_of_butlast by (rule butlast_map_normalise)
  ultimately have "sentences_of (join '' '' (map (normalise n) (sentences_of text)))
      = map (normalise n) (sentences_of text)"
    by (rule sentences_of_join)
  then show ?thesis by (simp add: combine_chunks_split)
qed

subsection \<open>The chunks depend on the sentences only\<close>

lemma sentence_step_strip: "sentence_step n st (strip raw) = sentence_step n st raw"
  by (cases st) (simp add: strip_strip)

lemma foldl_sentence_step_sentences:
  "foldl (sentence_step n) st (filter (\<lambda>s. s \<noteq> []) (map strip raws))
     = foldl (sentence_step n) st raws"
proof (induction raws arbitrary: st)
  case Nil
  show ?case by simp
next
  case (Cons raw raws)
  show ?case
  proof (cases "strip raw = []")
    case True
    then show ?thesis using Cons by (simp add: sentence_step_blank)
  next
    case False
    then show ?thesis using Cons by (simp add: sentence_step_strip)
  qed
qed

lemma split_into_chunks_sentences:
  "split_into_chunks text n =
     (case foldl (sentence_step n) ([], [], 0) (sentences_of text) of
        (chunks, current_chunk, current_size) \<Rightarrow> append_joined chunks current_chunk)"
proof (cases "text = []")
  case True
  then show ?thesis
    by (simp add: split_into_chunks_def sentences_of_Nil append_joined_def)
next
  case False
  then show ?thesis
    by (simp add: split_into_chunks_def sentences_of_def foldl_sentence_step_sentences)
qed

lemma py_split_rejoined: "py_split (join '' '' (py_split s)) = py_split s"
  by (simp add: py_split_join py_split_py_split)

lemma sentence_step_long_words:
  assumes "strip a \<noteq> []" "int (length (strip a)) > n"
    "strip b \<noteq> []" "int (length (strip b)) > n"
    "py_split (strip a) = py_split (strip b)"
  shows "sentence_step n st a = sentence_step n st b"
proof -
  obtain chunks cur sz where st: "st = (chunks, cur, sz)" by (cases st)
  obtain c2 t2 z2 where w:
    "foldl (word_step n) (append_joined chunks cur, [], 0) (py_split (strip a)) = (c2, t2, z2)"
    by (cases "foldl (word_step n) (append_joined chunks cur, [], 0) (py_split (strip a))")
  have "sentence_step n (chunks, cur, sz) a
      = (append_joined c2 t2, [], if cur \<noteq> [] then 0 else sz)"
    using assms(1,2) w by (rule sentence_step_long)
  moreover have "sentence_step n (chunks, cur, sz) b
      = (append_joined c2 t2, [], if cur \<noteq> [] then 0 else sz)"
    using assms(3,4) w [unfolded assms(5)] by (rule sentence_step_long)
  ultimately show ?thesis by (simp add: st)
qed

lemma sentence_step_normalise:
  assumes "is_sentence s"
    "int (length s) > n \<longrightarrow> int (length (join '' '' (py_split s))) > n"
  shows "sentence_step n st (normalise n s) = sentence_step n st s"
proof (cases "int (length s) > n")
  case False
  then show ?thesis by (simp add: normalise_def units_def)
next
  case True
  define r where "r = join '' '' (py_split s)"
  have r: "normalise n s = r" using True by (simp add: normalise_def units_def r_def)
  have "is_sentence r" unfolding r_def using assms(1) by (rule is_sentence_rejoined(1))
  then have sr: "strip r = r" "r \<noteq> []" by (simp_all add: is_sentence_def strip_id)
  have ss: "strip s = s" "s \<noteq> []" using assms(1) by (simp_all add: is_sentence_def strip_id)
  have long: "int (length r) > n" using assms(2) True by (simp add: r_def)
  have "py_split r = py_split s" unfolding r_def by (rule py_split_rejoined)
  then have "sentence_step n st r = sentence_step n st s"
    using sr ss long True by (intro sentence_step_long_words) simp_all
  then show ?thesis by (simp add: r)
qed

lemma foldl_sentence_step_normalise:
  "\<forall>s\<in>set ss. is_sentence s
      \<and> (int (length s) > n \<longrightarrow> int (length (join '' '' (py_split s))) > n)
   \<Longrightarrow> foldl (sentence_step n) st (map (normalise n) ss) = foldl (sentence_step n) st ss"
proof (induction ss arbitrary: st)
  case Nil
  show ?case by simp
next
  case (Cons s ss)
  have "sentence_step n st (normalise n s) = sentence_step n st s"
    using Cons.prems by (intro sentence_step_normalise) simp_all
  then show ?case using Cons by simp
qed

text \<open>
  C1. Every chunk returned by \<open>split_into_chunks\<close> has at most \<open>max_chunk_size\<close>
  characters, unless it is a single whitespace-delimited word of the text that is itself
  longer than \<open>max_chunk_size\<close>; and the words of the chunks, in order, are the words of
  the text, so no word is split. It holds for every \<open>max_chunk_size\<close>, positive or not.
\<close>

theorem chunk_size_bound:
  "(\<forall>c\<in>set (split_into_chunks text max_chunk_size).
      int (length c) \<le> max_chunk_size
      \<or> (c \<in> set (py_split text) \<and> max_chunk_size < int (length c)))
   \<and> concat (map py_split (split_into_chunks text max_chunk_size)) = py_split text"
  using split_into_chunks_within [of "text" max_chunk_size]
    split_into_chunks_words [of "text" max_chunk_size]
  by auto

theorem chunk_size_bound_witness:
  "split_into_chunks ''Hello world. Bye. What? Yes! supercalifragilistic is long.'' 12
     = [''Hello world.'', ''Bye. What?'', ''Yes!'', ''supercalifragilistic'', ''is long.'']
   \<and> list_all (\<lambda>c. int (length c) \<le> 12
         \<or> (c \<in> set (py_split ''Hello world. Bye. What? Yes! supercalifragilistic is long.'')
            \<and> 12 < int (length c)))
       (split_into_chunks ''Hello world. Bye. What? Yes! supercalifragilistic is long.'' 12)"
proof -
  have chunks:
    "split_into_chunks ''Hello world. Bye. What? Yes! supercalifragilistic is long.'' 12
       = [''Hello world.'', ''Bye. What?'', ''Yes!'', ''supercalifragilistic'', ''is long.'']"
    by (simp add: split_into_chunks_def re_split_def py_split_def strip_def isspace_def
        is_terminator_def append_joined_def)
  show ?thesis
    using chunk_size_bound
      [of "''Hello world. Bye. What? Yes! supercalifragilistic is long.''" 12]
    unfolding list_all_iff using chunks by blast
qed

text \<open>
  C8 (as the code has it). \<open>split_into_chunks\<close> is total (the loops are folds over finite
  lists and \<open>re_split_from\<close> terminates), and it returns the empty list exactly when the
  text has no character that is not whitespace: when it is empty or all whitespace.
\<close>

theorem split_into_chunks_empty_iff_blank:
  "split_into_chunks text max_chunk_size = [] \<longleftrightarrow> list_all isspace text"
  by (rule split_into_chunks_eq_Nil)

text \<open>
  C8 as stated fails: the text of one space is not empty and yields no chunk.
\<close>

theorem split_into_chunks_space_is_empty:
  "'' '' \<noteq> [] \<and> split_into_chunks '' '' 5 = []"
  by (simp add: split_into_chunks_def re_split_def strip_def isspace_def append_joined_def)

text \<open>
  C2 (as the code has it). The chunks joined by single spaces give the text back up to
  whitespace at the sentence boundaries and, inside a sentence longer than
  \<open>max_chunk_size\<close>, between its words: the joined text has the sentences of the text, in
  order, a sentence longer than \<open>max_chunk_size\<close> with its words joined by single spaces
  and every other sentence as it is; and it has the same whitespace-delimited words as
  the text, so no other character is added, dropped or moved.
\<close>

theorem rejoined_sentences:
  "sentences_of (combine_chunks (split_into_chunks text max_chunk_size))
     = map (\<lambda>s. if int (length s) > max_chunk_size then join '' '' (py_split s) else s)
         (sentences_of text)
   \<and> py_split (combine_chunks (split_into_chunks text max_chunk_size)) = py_split text"
proof -
  have "normalise max_chunk_size
      = (\<lambda>s. if int (length s) > max_chunk_size then join '' '' (py_split s) else s)"
    by (rule ext) (simp add: normalise_def units_def)
  then have "sentences_of (combine_chunks (split_into_chunks text max_chunk_size))
     = map (\<lambda>s. if int (length s) > max_chunk_size then join '' '' (py_split s) else s)
         (sentences_of text)"
    using sentences_of_rejoined [of "text" max_chunk_size] by simp
  moreover have "py_split (combine_chunks (split_into_chunks text max_chunk_size)) = py_split text"
    by (simp add: combine_chunks_def py_split_join split_into_chunks_words)
  ultimately show ?thesis by simp
qed

text \<open>
  C2 as stated fails: \<open>a  b\<close> (two spaces) has no sentence boundary inside, it is one
  sentence of four characters, and with \<open>max_chunk_size = 3\<close> it comes back as \<open>a b\<close>: a
  space between two words of the sentence is dropped.
\<close>

theorem rejoined_text_loses_inner_whitespace:
  "re_split ''a  b'' = [''a  b'']
   \<and> combine_chunks (split_into_chunks ''a  b'' 3) = ''a b''
   \<and> sentences_of (combine_chunks (split_into_chunks ''a  b'' 3)) \<noteq> sentences_of ''a  b''"
  by (simp add: combine_chunks_def split_into_chunks_def sentences_of_def re_split_def
      py_split_def strip_def isspace_def is_terminator_def append_joined_def)

text \<open>
  C9 (as the code has it). When every sentence of the text that is longer than
  \<open>max_chunk_size\<close> is still longer than \<open>max_chunk_size\<close> with its words joined by single
  spaces, splitting the joined chunks again with the same \<open>max_chunk_size\<close> gives the same
  chunks. In particular this is so when the words of those sentences are separated by
  single spaces already.
\<close>

theorem rechunking_idempotent:
  assumes "\<forall>s\<in>set (sentences_of text).
      int (length s) > max_chunk_size
        \<longrightarrow> int (length (join '' '' (py_split s))) > max_chunk_size"
  shows "split_into_chunks (combine_chunks (split_into_chunks text max_chunk_size)) max_chunk_size
     = split_into_chunks text max_chunk_size"
proof -
  have "foldl (sentence_step max_chunk_size) ([], [], 0)
          (map (normalise max_chunk_size) (sentences_of text))
      = foldl (sentence_step max_chunk_size) ([], [], 0) (sentences_of text)"
    using assms sentences_of_is_sentence [of "text"]
    by (intro foldl_sentence_step_normalise) simp
  then have "(case foldl (sentence_step max_chunk_size) ([], [], 0)
          (sentences_of (combine_chunks (split_into_chunks text max_chunk_size))) of
        (chunks, current_chunk, current_size) \<Rightarrow> append_joined chunks current_chunk)
      = (case foldl (sentence_step max_chunk_size) ([], [], 0) (sentences_of text) of
        (chunks, current_chunk, current_size) \<Rightarrow> append_joined chunks current_chunk)"
    by (simp only: sentences_of_rejoined)
  then show ?thesis
    by (simp only: split_into_chunks_sentences [symmetric])
qed

theorem rechunking_idempotent_witness:
  "split_into_chunks ''Hi.  aaa   bbb'' 3 = [''Hi.'', ''aaa'', ''bbb'']
   \<and> combine_chunks (split_into_chunks ''Hi.  aaa   bbb'' 3) = ''Hi. aaa bbb''
   \<and> split_into_chunks (combine_chunks (split_into_chunks ''Hi.  aaa   bbb'' 3)) 3
       = [''Hi.'', ''aaa'', ''bbb'']"
proof -
  have s: "sentences_of ''Hi.  aaa   bbb'' = [''Hi.'', ''aaa   bbb'']"
    by (simp add: sentences_of_def re_split_def strip_def isspace_def is_terminator_def)
  have j: "join '' '' (py_split ''aaa   bbb'') = ''aaa bbb''"
    by (simp add: py_split_def isspace_def)
  have c: "split_into_chunks ''Hi.  aaa   bbb'' 3 = [''Hi.'', ''aaa'', ''bbb'']"
    by (simp add: split_into_chunks_def re_split_def py_split_def strip_def isspace_def
        is_terminator_def append_joined_def)
  show ?thesis
    using rechunking_idempotent [of "''Hi.  aaa   bbb''" 3] s j c
    by (simp add: combine_chunks_def)
qed

text \<open>
  C9 as stated fails: with \<open>max_chunk_size = 3\<close> the text \<open>a  b\<close> (two spaces, four
  characters) is split into its words, while the joined chunks \<open>a b\<close> have three
  characters and come back as one chunk.
\<close>

theorem rechunking_not_idempotent:
  "split_into_chunks ''a  b'' 3 = [''a'', ''b'']
   \<and> split_into_chunks (combine_chunks (split_into_chunks ''a  b'' 3)) 3 = [''a b'']"
  by (simp add: combine_chunks_def split_into_chunks_def re_split_def
      py_split_def strip_def isspace_def is_terminator_def append_joined_def)

section \<open>Translation\<close>

lemma translate_chunk_log:
  "backend_log (snd (translate_chunk bk (acc, self) chunk)) = backend_log self @ [chunk]"
  by (simp split: prod.splits option.splits)

lemma translate_chunk_cache:
  "translation_cache (snd (translate_chunk bk (acc, self) chunk)) = translation_cache self"
  by (simp split: prod.splits option.splits)

lemma translate_chunk_target:
  "translator_target (snd (translate_chunk bk (acc, self) chunk)) = translator_target self"
  by (simp split: prod.splits option.splits)

lemma translate_chunk_state:
  "translator_state (snd (translate_chunk bk (acc, self) chunk)) =
     snd (bk (translator_state self) (translator_target self) chunk)"
  by (simp split: prod.splits option.splits)

lemma translate_chunk_fst:
  "fst (translate_chunk bk (acc, self) chunk) =
     acc @ [best_effort bk (translator_target self) (translator_state self) chunk]"
  by (simp add: best_effort_def split: prod.splits option.splits)

lemma foldl_translate_chunk_log:
  "backend_log (snd (foldl (translate_chunk bk) (acc, self) chunks)) = backend_log self @ chunks"
proof (induction chunks arbitrary: acc self)
  case Nil
  show ?case by simp
next
  case (Cons c cs)
  obtain acc' self' where st: "translate_chunk bk (acc, self) c = (acc', self')"
    by (cases "translate_chunk bk (acc, self) c")
  have "backend_log self' = backend_log self @ [c]"
    using translate_chunk_log [of bk acc self c] st by simp
  then show ?case
    using Cons.IH [of acc' self'] st by simp
qed

lemma foldl_translate_chunk_cache:
  "translation_cache (snd (foldl (translate_chunk bk) (acc, self) chunks)) = translation_cache self"
proof (induction chunks arbitrary: acc self)
  case Nil
  show ?case by simp
next
  case (Cons c cs)
  obtain acc' self' where st: "translate_chunk bk (acc, self) c = (acc', self')"
    by (cases "translate_chunk bk (acc, self) c")
  have "translation_cache self' = translation_cache self"
    using translate_chunk_cache [of bk acc self c] st by simp
  then show ?case
    using Cons.IH [of acc' self'] st by simp
qed

lemma foldl_translate_chunk_fst:
  "fst (foldl (translate_chunk bk) (acc, self) chunks) =
     acc @ kept_values bk (translator_target self) (translator_state self) chunks"
proof (induction chunks arbitrary: acc self)
  case Nil
  show ?case by (simp add: kept_values_def)
next
  case (Cons c cs)
  obtain acc' self' where st: "translate_chunk bk (acc, self) c = (acc', self')"
    by (cases "translate_chunk bk (acc, self) c")
  have a: "acc' = acc @ [best_effort bk (translator_target self) (translator_state self) c]"
    using translate_chunk_fst [of bk acc self c] st by simp
  have t: "translator_target self' = translator_target self"
    using translate_chunk_target [of bk acc self c] st by simp
  have s: "translator_state self' = snd (bk (translator_state self) (translator_target self) c)"
    using translate_chunk_state [of bk acc self c] st by simp
  show ?case
    using Cons.IH [of acc' self'] st a t s by (simp add: kept_values_def)
qed

lemma translate_loop:
  assumes "foldl (translate_chunk bk) ([], self\<lparr>translator_target := target_lang\<rparr>) chunks
      = (acc, self')"
  shows "acc = kept_values bk target_lang (translator_state self) chunks"
    and "backend_log self' = backend_log self @ chunks"
    and "translation_cache self' = translation_cache self"
proof -
  show "acc = kept_values bk target_lang (translator_state self) chunks"
    using foldl_translate_chunk_fst [of bk "[]" "self\<lparr>translator_target := target_lang\<rparr>" chunks]
      assms by simp
  show "backend_log self' = backend_log self @ chunks"
    using foldl_translate_chunk_log [of bk "[]" "self\<lparr>translator_target := target_lang\<rparr>" chunks]
      assms by simp
  show "translation_cache self' = translation_cache self"
    using foldl_translate_chunk_cache [of bk "[]" "self\<lparr>translator_target := target_lang\<rparr>" chunks]
      assms by simp
qed

lemma strings_of_eq_None: "strings_of xs = None \<longleftrightarrow> NotStr \<in> set xs"
  by (induction xs rule: strings_of.induct) simp_all

lemma join_values_TypeError: "join_values sep xs = Inl e \<longleftrightarrow> e = TypeError \<and> NotStr \<in> set xs"
  by (auto simp add: join_values_def strings_of_eq_None [symmetric] split: option.splits)

lemma join_values_Inr: "NotStr \<notin> set xs \<Longrightarrow> \<exists>r. join_values sep xs = Inr r"
  using join_values_TypeError [of sep xs] by (cases "join_values sep xs") auto

lemma length_slices: "length (slices k text) = (length text + k - 1) div k"
  by (simp add: slices_def)

lemma supported_bn: "map_of SUPPORTED_LANGUAGES ''bn'' \<noteq> None"
  by (simp add: SUPPORTED_LANGUAGES_def)

lemma translate_text_miss:
  assumes "text \<noteq> []" "strip text \<noteq> []" "map_of SUPPORTED_LANGUAGES target_lang \<noteq> None"
    "\<not> (target_lang = ''en'' \<and> list_all (\<lambda>c. of_char c < (128 :: nat)) text)"
    "translation_cache self (text @ ''_'' @ target_lang) = None"
    "foldl (translate_chunk bk) ([], self\<lparr>translator_target := target_lang\<rparr>) (slices 5000 text)
      = (acc, self')"
  shows "translate_text bk self text target_lang =
     (case join_values '' '' acc of
        Inr result \<Rightarrow>
          (Inr result,
           self'\<lparr>translation_cache :=
             (translation_cache self')(text @ ''_'' @ target_lang \<mapsto> result)\<rparr>)
      | Inl e \<Rightarrow> (Inr text, self'))"
  using assms by (auto simp add: translate_text_def Let_def split: sum.splits)

lemma translate_text_hit:
  assumes "text \<noteq> []" "strip text \<noteq> []" "map_of SUPPORTED_LANGUAGES target_lang \<noteq> None"
    "\<not> (target_lang = ''en'' \<and> list_all (\<lambda>c. of_char c < (128 :: nat)) text)"
    "translation_cache self (text @ ''_'' @ target_lang) = Some cached"
  shows "translate_text bk self text target_lang = (Inr cached, self)"
  using assms by (auto simp add: translate_text_def Let_def)

lemma translate_text_repeat:
  assumes "NotStr \<notin> set (kept_values bk target_lang (translator_state self) (slices 5000 text))"
  shows "translate_text bk (snd (translate_text bk self text target_lang)) text target_lang
     = translate_text bk self text target_lang"
proof (cases "text = [] \<or> strip text = [] \<or> map_of SUPPORTED_LANGUAGES target_lang = None
    \<or> (target_lang = ''en'' \<and> list_all (\<lambda>c. of_char c < (128 :: nat)) text)")
  case True
  then show ?thesis by (auto simp add: translate_text_def)
next
  case False
  then have nb: "text \<noteq> []" "strip text \<noteq> []" "map_of SUPPORTED_LANGUAGES target_lang \<noteq> None"
    "\<not> (target_lang = ''en'' \<and> list_all (\<lambda>c. of_char c < (128 :: nat)) text)"
    by auto
  show ?thesis
  proof (cases "translation_cache self (text @ ''_'' @ target_lang)")
    case (Some v)
    then show ?thesis
      using translate_text_hit [OF nb Some, of bk] by simp
  next
    case None
    obtain acc self' where st:
      "foldl (translate_chunk bk) ([], self\<lparr>translator_target := target_lang\<rparr>) (slices 5000 text)
        = (acc, self')"
      by (cases "foldl (translate_chunk bk) ([], self\<lparr>translator_target := target_lang\<rparr>)
          (slices 5000 text)")
    have "NotStr \<notin> set acc"
      using assms translate_loop(1) [OF st] by simp
    then obtain r where r: "join_values '' '' acc = Inr r"
      using join_values_Inr by blast
    define self2 where "self2 =
      self'\<lparr>translation_cache := (translation_cache self')(text @ ''_'' @ target_lang \<mapsto> r)\<rparr>"
    have first: "translate_text bk self text target_lang = (Inr r, self2)"
      using translate_text_miss [OF nb None st] r by (simp add: self2_def)
    have "translation_cache self2 (text @ ''_'' @ target_lang) = Some r"
      by (simp add: self2_def)
    then have "translate_text bk self2 text target_lang = (Inr r, self2)"
      using nb by (intro translate_text_hit) simp_all
    then show ?thesis
      using first by simp
  qed
qed

lemma translate_text_calls:
  "backend_log (snd (translate_text bk self text target_lang)) =
     backend_log self @
       (if text = [] \<or> strip text = [] \<or> map_of SUPPORTED_LANGUAGES target_lang = None
           \<or> (target_lang = ''en'' \<and> list_all (\<lambda>c. of_char c < (128 :: nat)) text)
           \<or> translation_cache self (text @ ''_'' @ target_lang) \<noteq> None
        then [] else slices 5000 text)"
proof -
  obtain acc self' where st:
    "foldl (translate_chunk bk) ([], self\<lparr>translator_target := target_lang\<rparr>) (slices 5000 text)
      = (acc, self')"
    by (cases "foldl (translate_chunk bk) ([], self\<lparr>translator_target := target_lang\<rparr>)
        (slices 5000 text)")
  have lg: "backend_log self' = backend_log self @ slices 5000 text"
    using st by (rule translate_loop(2))
  show ?thesis
    using st lg
    by (auto simp add: translate_text_def Let_def split: option.splits sum.splits)
qed


lemma translate_text_cached:
  assumes "text \<noteq> []" "strip text \<noteq> []" "map_of SUPPORTED_LANGUAGES target_lang \<noteq> None"
    "\<not> (target_lang = ''en'' \<and> list_all (\<lambda>c. of_char c < (128 :: nat)) text)"
    "NotStr \<notin> set (kept_values bk target_lang (translator_state self) (slices 5000 text))"
  shows "map_option Inr (translation_cache (snd (translate_text bk self text target_lang))
          (text @ ''_'' @ target_lang)) = Some (fst (translate_text bk self text target_lang))"
proof (cases "translation_cache self (text @ ''_'' @ target_lang)")
  case (Some v)
  then show ?thesis
    using translate_text_hit [OF assms(1-4) Some, of bk] by simp
next
  case None
  obtain acc self' where st:
    "foldl (translate_chunk bk) ([], self\<lparr>translator_target := target_lang\<rparr>) (slices 5000 text)
      = (acc, self')"
    by (cases "foldl (translate_chunk bk) ([], self\<lparr>translator_target := target_lang\<rparr>)
        (slices 5000 text)")
  have "NotStr \<notin> set acc"
    using assms(5) translate_loop(1) [OF st] by simp
  then obtain r where r: "join_values '' '' acc = Inr r"
    using join_values_Inr by blast
  show ?thesis
    using translate_text_miss [OF assms(1-4) None st] r by simp
qed

lemma upt_0_2: "[0 ..< 2] = [0, Suc 0]"
  by (simp add: numeral_2_eq_2)

lemma slices_5001: "slices 5000 (replicate 5001 c) = [replicate 5000 c, [c]]"
  by (simp add: slices_def upt_0_2)


text \<open>
  C10. For a text that is empty or all whitespace, \<open>translate_text\<close> returns the text
  itself for every language code, supported or not, and leaves the tool as it was: no
  exception, no call of the backend, and a result that does not depend on the cache.
\<close>

theorem blank_text_returned_unchanged:
  "list_all isspace text \<Longrightarrow> translate_text bk self text target_lang = (Inr text, self)"
  by (simp add: translate_text_def strip_eq_Nil)

theorem blank_text_returned_unchanged_witness:
  "translate_text failing_backend (new_tool ()) '' '' ''xx'' = (Inr '' '', new_tool ())"
  using blank_text_returned_unchanged [of "'' ''" failing_backend "new_tool ()" "''xx''"]
  by (simp add: isspace_def)

text \<open>
  C5 (as the code has it). For a text with a character that is not whitespace and a
  language code that is not a key of \<open>SUPPORTED_LANGUAGES\<close>, \<open>translate_text\<close> raises
  \<open>ValueError\<close> and leaves the tool as it was, so the backend is not called.
\<close>

theorem unsupported_language_raises:
  "\<not> list_all isspace text \<Longrightarrow> map_of SUPPORTED_LANGUAGES target_lang = None
   \<Longrightarrow> translate_text bk self text target_lang = (Inl ValueError, self)"
  by (auto simp add: translate_text_def strip_eq_Nil)

theorem unsupported_language_raises_witness:
  "translate_text failing_backend (new_tool ()) ''hola'' ''xx'' = (Inl ValueError, new_tool ())"
  using unsupported_language_raises [of "''hola''" "''xx''" failing_backend "new_tool ()"]
  by (simp add: isspace_def SUPPORTED_LANGUAGES_def)

text \<open>
  C5 as stated fails: on the empty text the check for blank text comes first and the text
  is returned, although \<open>xx\<close> is not a supported code.
\<close>

theorem unsupported_language_blank_text_no_error:
  "map_of SUPPORTED_LANGUAGES ''xx'' = None
   \<and> translate_text failing_backend (new_tool ()) [] ''xx'' = (Inr [], new_tool ())"
  by (simp add: translate_text_def SUPPORTED_LANGUAGES_def)

text \<open>
  C6 (as the code has it). Take two calls of \<open>translate_text\<close> in succession with the
  same text and the code \<open>bn\<close>, where every value the backend returns for the segments
  of the text, from the state it is in at the first call, is a \<open>str\<close> (its calls may
  raise). The second call returns what the first returned and leaves the tool as the
  first left it, so it does not call the backend; for a text that is not blank the cache
  then holds the result under the key \<open>text + "_" + "bn"\<close>. The first call calls the
  backend at most once for each segment of 5000 characters.
\<close>

theorem translate_text_twice:
  assumes "NotStr \<notin> set (kept_values bk ''bn'' (translator_state self) (slices 5000 text))"
  shows "translate_text bk (snd (translate_text bk self text ''bn'')) text ''bn''
     = translate_text bk self text ''bn''
   \<and> (list_all isspace text
      \<or> map_option Inr (translation_cache (snd (translate_text bk self text ''bn''))
           (text @ ''_'' @ ''bn'')) = Some (fst (translate_text bk self text ''bn'')))
   \<and> (\<exists>calls. backend_log (snd (translate_text bk self text ''bn'')) = backend_log self @ calls
         \<and> length calls \<le> (length text + 4999) div 5000)"
proof -
  have "list_all isspace text
      \<or> map_option Inr (translation_cache (snd (translate_text bk self text ''bn''))
           (text @ ''_'' @ ''bn'')) = Some (fst (translate_text bk self text ''bn''))"
  proof (cases "list_all isspace text")
    case True
    then show ?thesis by simp
  next
    case False
    then have "text \<noteq> []" "strip text \<noteq> []" by (auto simp: strip_eq_Nil)
    then show ?thesis
      using translate_text_cached [of "text" "''bn''" bk self] supported_bn assms by simp
  qed
  moreover have "\<exists>calls. backend_log (snd (translate_text bk self text ''bn'')) = backend_log self @ calls
         \<and> length calls \<le> (length text + 4999) div 5000"
    by (simp add: translate_text_calls length_slices add.commute)
  ultimately show ?thesis
    using translate_text_repeat [OF assms] by simp
qed

theorem translate_text_twice_witness:
  "translate_text echo_backend (snd (translate_text echo_backend (new_tool ()) ''hola'' ''bn''))
       ''hola'' ''bn''
     = (Inr ''hola'',
        \<lparr>translator_target = ''bn'', translator_state = (),
         translation_cache = [''hola_bn'' \<mapsto> ''hola''], backend_log = [''hola'']\<rparr>)"
proof -
  have "kept_values echo_backend ''bn'' (translator_state (new_tool ())) (slices 5000 ''hola'')
      = [Str ''hola'']"
    by (simp add: kept_values_def best_effort_def echo_backend_def slices_def new_tool_def)
  then have "NotStr \<notin> set (kept_values echo_backend ''bn'' (translator_state (new_tool ()))
      (slices 5000 ''hola''))"
    by simp
  then show ?thesis
    using translate_text_twice [of echo_backend "new_tool ()" "''hola''"]
    by (simp add: translate_text_def new_tool_def strip_def isspace_def SUPPORTED_LANGUAGES_def
        slices_def Let_def echo_backend_def join_values_def)
qed

text \<open>
  C6 as stated fails: with a text of 5001 characters, and a backend that returns a \<open>str\<close>
  at every call, the two calls together call the backend twice, once for each segment of
  the first call.
\<close>

theorem long_text_calls_backend_twice:
  "length (backend_log (snd (translate_text echo_backend
       (snd (translate_text echo_backend (new_tool ()) (replicate 5001 (CHR ''a'')) ''bn''))
       (replicate 5001 (CHR ''a'')) ''bn''))) = 2"
proof -
  have "kept_values echo_backend ''bn'' (translator_state (new_tool ()))
      (slices 5000 (replicate 5001 (CHR ''a''))) = [Str (replicate 5000 (CHR ''a'')), Str ''a'']"
    by (simp add: kept_values_def best_effort_def echo_backend_def slices_5001)
  then have "NotStr \<notin> set (kept_values echo_backend ''bn'' (translator_state (new_tool ()))
      (slices 5000 (replicate 5001 (CHR ''a''))))"
    by simp
  then have "translate_text echo_backend
       (snd (translate_text echo_backend (new_tool ()) (replicate 5001 (CHR ''a'')) ''bn''))
       (replicate 5001 (CHR ''a'')) ''bn''
     = translate_text echo_backend (new_tool ()) (replicate 5001 (CHR ''a'')) ''bn''"
    by (rule translate_text_repeat)
  then show ?thesis
    by (simp add: translate_text_calls strip_eq_Nil list_all_iff isspace_def
        SUPPORTED_LANGUAGES_def new_tool_def slices_5001)
qed




end
